theory Spec2Isabelle
  imports Main "HOL-Library.Sublist"
begin

section \<open>Text and the regular expressions of \<^verbatim>\<open>scripts/fix-ts-errors.py\<close>\<close>

text \<open>
  A Python \<^verbatim>\<open>str\<close> is a sequence of Unicode code points. The script reads each file
  with \<^verbatim>\<open>open(filepath, 'r', encoding='utf-8')\<close>, so a \<open>pystr\<close> below is the decoded
  content that \<^verbatim>\<open>f.read()\<close> returns (after the newline translation of text mode), one
  \<open>nat\<close> per code point. String literals of the script are ASCII and are written with
  \<open>str\<close>.
\<close>

type_synonym codepoint = nat
type_synonym pystr = "codepoint list"

definition str :: "string \<Rightarrow> pystr" where
  "str cs = map of_char cs"

text \<open>
  \<^verbatim>\<open>\s\<close> in a \<^verbatim>\<open>str\<close> pattern is Unicode whitespace: the code points for which
  CPython's \<^verbatim>\<open>Py_UNICODE_ISSPACE\<close> holds (tab to carriage return, the separators
  0x1C to 0x1F, space, NEL, no-break space and the Unicode space separators).
\<close>

definition is_space :: "codepoint \<Rightarrow> bool" where
  "is_space c \<longleftrightarrow>
     (9 \<le> c \<and> c \<le> 13) \<or> (28 \<le> c \<and> c \<le> 32) \<or> c = 133 \<or> c = 160 \<or> c = 5760 \<or>
     (8192 \<le> c \<and> c \<le> 8202) \<or> c = 8232 \<or> c = 8233 \<or> c = 8239 \<or> c = 8287 \<or>
     c = 12288"

text \<open>
  The two patterns of the script use only literal characters, the class \<^verbatim>\<open>\s\<close>, the
  greedy quantifiers \<^verbatim>\<open>*\<close> and \<^verbatim>\<open>+\<close> on that class, and concatenation (the group
  \<^verbatim>\<open>(\s+)\<close> only captures, and the replacement never refers to it). A pattern is
  therefore a list of quantified atoms.
\<close>

datatype atom = Lit codepoint | Space

datatype item = One atom | Star atom | Plus atom

type_synonym regex = "item list"

fun accepts :: "atom \<Rightarrow> codepoint \<Rightarrow> bool" where
  "accepts (Lit a) c = (c = a)"
| "accepts Space c = is_space c"

definition lit :: "string \<Rightarrow> regex" where
  "lit cs = map (\<lambda>c. One (Lit (of_char c))) cs"

text \<open>
  \<open>match_here p s\<close> is the backtracking match of \<open>p\<close> anchored at the start of \<open>s\<close>, as
  \<^verbatim>\<open>re\<close> runs it: a greedy quantifier first takes one more character and tries the
  rest of the pattern, and gives the character back only when that fails. The result is
  the text left after the first match found in this order, or \<open>None\<close>.
\<close>

fun match_here :: "regex \<Rightarrow> pystr \<Rightarrow> pystr option" where
  "match_here [] s = Some s"
| "match_here (One a # p) [] = None"
| "match_here (One a # p) (c # cs) = (if accepts a c then match_here p cs else None)"
| "match_here (Star a # p) [] = match_here p []"
| "match_here (Star a # p) (c # cs) =
     (if accepts a c then
        (case match_here (Star a # p) cs of
           Some r \<Rightarrow> Some r
         | None \<Rightarrow> match_here p (c # cs))
      else match_here p (c # cs))"
| "match_here (Plus a # p) [] = None"
| "match_here (Plus a # p) (c # cs) =
     (if accepts a c then match_here (Star a # p) cs else None)"

text \<open>
  \<open>re_sub p s\<close> is \<^verbatim>\<open>re.sub(p, '', s)\<close>: scanning from the left, the leftmost match is
  deleted and the scan goes on after it; where no match starts, the character is kept.
  An empty match is replaced by the empty string, which changes nothing, and the scan
  moves one character on.
\<close>

function re_sub :: "regex \<Rightarrow> pystr \<Rightarrow> pystr" where
  "re_sub p [] = []"
| "re_sub p (c # cs) =
     (case match_here p (c # cs) of
        None \<Rightarrow> c # re_sub p cs
      | Some r \<Rightarrow> if length r < length (c # cs) then re_sub p r else c # re_sub p cs)"
  by pat_completeness auto
termination
  by (relation "measure (\<lambda>(p, s). length s)") auto

text \<open>
  Pattern 1: \<^verbatim>\<open>(\s+)schoolId:\s*context\.schoolId,\s*//\s*CRITICAL:\s*Filter by school\s*\n\<close>

  Pattern 2: \<^verbatim>\<open>(\s+)schoolId,\s*//\s*CRITICAL:\s*Filter by school\s*\n\<close>
\<close>

definition marker :: regex where
  "marker = [Star Space] @ lit ''//'' @ [Star Space] @ lit ''CRITICAL:'' @ [Star Space] @
     lit ''Filter by school'' @ [Star Space] @ [One (Lit 10)]"

definition pattern1 :: regex where
  "pattern1 = [Plus Space] @ lit ''schoolId:'' @ [Star Space] @ lit ''context.schoolId,'' @ marker"

definition pattern2 :: regex where
  "pattern2 = [Plus Space] @ lit ''schoolId,'' @ marker"

text \<open>\<open>has_match p s\<close>: \<^verbatim>\<open>re.search(p, s)\<close> finds a match somewhere in \<open>s\<close>.\<close>

fun has_match :: "regex \<Rightarrow> pystr \<Rightarrow> bool" where
  "has_match p [] = (match_here p [] \<noteq> None)"
| "has_match p (c # cs) = (match_here p (c # cs) \<noteq> None \<or> has_match p cs)"

definition fix_user_where_clause :: "pystr \<Rightarrow> pystr" where
  "fix_user_where_clause content = re_sub pattern2 (re_sub pattern1 content)"

section \<open>The detection passes\<close>

text \<open>
  What the script prints is modelled as a list of events, one per \<^verbatim>\<open>print\<close> call.
\<close>

type_synonym path = string

datatype event =
    Starting
  | Fixing path
  | Fixed path
  | NoChanges
  | NotFound path
  | Error string
  | WarnTeacher
  | WarnUserSchools
  | Summary nat
  | Reminder

text \<open>\<open>py_in sub s\<close> is the substring test \<^verbatim>\<open>sub in s\<close>.\<close>

fun py_in :: "pystr \<Rightarrow> pystr \<Rightarrow> bool" where
  "py_in sub [] = (sub = [])"
| "py_in sub (c # cs) = (prefix sub (c # cs) \<or> py_in sub cs)"

text \<open>Each pass returns the content together with the warning it prints, if any.\<close>

definition fix_teacher_references :: "pystr \<Rightarrow> pystr \<times> event list" where
  "fix_teacher_references content =
     (if py_in (str ''user.teacher'') content \<and> \<not> py_in (str ''include:'') content
      then (content, [WarnTeacher])
      else (content, []))"

definition fix_user_schools_references :: "pystr \<Rightarrow> pystr \<times> event list" where
  "fix_user_schools_references content =
     (if py_in (str ''user.userSchools[0]'') content
      then (if \<not> py_in (str ''userSchools:'') content
            then (content, [WarnUserSchools])
            else (content, []))
      else (content, []))"

section \<open>Files and standard output\<close>

text \<open>
  A path names nothing (opening it raises \<^verbatim>\<open>FileNotFoundError\<close>), or something that
  cannot be opened or decoded (any other exception, with its message), or a text file
  with its decoded content and what happens when it is written.
  \<^verbatim>\<open>open(filepath, 'w')\<close> truncates the file and \<^verbatim>\<open>f.write\<close> with the close of the
  \<^verbatim>\<open>with\<close> block fills it again, so a write can fail in two ways: the open raises and
  the file is as it was, or the open succeeds and the write or the close raises, after
  only the first \<open>k\<close> code points of the new content have reached the file.
\<close>

datatype exn = FileNotFoundError | UnicodeEncodeError | OtherException string

datatype write_mode = Writable | OpenRaises string | WriteRaises string nat

datatype node = Regular (data: pystr) (mode: write_mode) | Unreadable string

type_synonym fs = "path \<Rightarrow> node option"

text \<open>The file system in which no path names anything.\<close>

definition empty_fs :: fs where
  "empty_fs p = None"

fun read_text :: "fs \<Rightarrow> path \<Rightarrow> exn + pystr" where
  "read_text files p =
     (case files p of
        None \<Rightarrow> Inl FileNotFoundError
      | Some (Unreadable msg) \<Rightarrow> Inl (OtherException msg)
      | Some (Regular t m) \<Rightarrow> Inr t)"

text \<open>
  \<open>write_text\<close> returns the exception, if one is raised, and the files as the attempt
  leaves them.
\<close>

fun write_text :: "fs \<Rightarrow> path \<Rightarrow> pystr \<Rightarrow> (exn + unit) \<times> fs" where
  "write_text files p t =
     (case files p of
        None \<Rightarrow> (Inr (), files(p \<mapsto> Regular t Writable))
      | Some (Unreadable msg) \<Rightarrow> (Inl (OtherException msg), files)
      | Some (Regular old Writable) \<Rightarrow> (Inr (), files(p \<mapsto> Regular t Writable))
      | Some (Regular old (OpenRaises msg)) \<Rightarrow> (Inl (OtherException msg), files)
      | Some (Regular old (WriteRaises msg k)) \<Rightarrow>
          (Inl (OtherException msg), files(p \<mapsto> Regular (take k t) (WriteRaises msg k))))"

text \<open>
  The lines that report a result or warn begin with a mark outside ASCII (U+2713, U+2717,
  U+26A0). \<^verbatim>\<open>print\<close> encodes a line for standard output before it writes it, and raises
  \<^verbatim>\<open>UnicodeEncodeError\<close>, printing nothing, when the encoding of standard output has no
  such character. The other lines are ASCII (the paths of the list are), and every
  encoding prints them.
\<close>

datatype stdout = EncodesMarks | NoMarks

fun marked :: "event \<Rightarrow> bool" where
  "marked (Fixed p) = True"
| "marked (NotFound p) = True"
| "marked (Error msg) = True"
| "marked WarnTeacher = True"
| "marked WarnUserSchools = True"
| "marked e = False"

definition can_print :: "stdout \<Rightarrow> event \<Rightarrow> bool" where
  "can_print c e \<longleftrightarrow> c = EncodesMarks \<or> \<not> marked e"

text \<open>
  The prints of a list of lines in order: what is printed, and the exception of the first
  line that cannot be.
\<close>

fun print_all :: "stdout \<Rightarrow> event list \<Rightarrow> (exn + unit) \<times> event list" where
  "print_all c [] = (Inr (), [])"
| "print_all c (e # es) =
     (if can_print c e then (case print_all c es of (r, out) \<Rightarrow> (r, e # out))
      else (Inl UnicodeEncodeError, []))"

text \<open>
  The three passes in the order of \<^verbatim>\<open>fix_file\<close>, with the warnings they print.
\<close>

definition fix_content :: "pystr \<Rightarrow> pystr \<times> event list" where
  "fix_content original =
     (let content = fix_user_where_clause original;
          (content, w1) = fix_teacher_references content;
          (content, w2) = fix_user_schools_references content
      in (content, w1 @ w2))"

text \<open>
  The body of the \<^verbatim>\<open>try\<close> block: the value it returns or the exception it raises,
  with the files and the lines printed as they are at that moment. The passes print
  their warnings while they run, before anything is written.
\<close>

definition fix_file_try :: "stdout \<Rightarrow> fs \<Rightarrow> path \<Rightarrow> (exn + bool) \<times> fs \<times> event list" where
  "fix_file_try c files filepath =
     (case read_text files filepath of
        Inl e \<Rightarrow> (Inl e, files, [])
      | Inr original \<Rightarrow>
          (case fix_content original of (content, warnings) \<Rightarrow>
             (case print_all c warnings of
                (Inl e, out) \<Rightarrow> (Inl e, files, out)
              | (Inr u, out) \<Rightarrow>
                  if content \<noteq> original then
                    (case write_text files filepath content of
                       (Inl e, files') \<Rightarrow> (Inl e, files', out)
                     | (Inr u, files') \<Rightarrow>
                         if can_print c (Fixed filepath)
                         then (Inr True, files', out @ [Fixed filepath])
                         else (Inl UnicodeEncodeError, files', out))
                  else (Inr False, files, out @ [NoChanges]))))"

text \<open>
  The line of an \<^verbatim>\<open>except\<close> clause: \<^verbatim>\<open>except FileNotFoundError\<close> comes first, then
  \<^verbatim>\<open>except Exception\<close>, which prints the message of the exception.
\<close>

fun message :: "exn \<Rightarrow> string" where
  "message FileNotFoundError = ''No such file or directory''"
| "message UnicodeEncodeError = ''codec cannot encode character''"
| "message (OtherException msg) = msg"

fun report :: "exn \<Rightarrow> path \<Rightarrow> event" where
  "report FileNotFoundError filepath = NotFound filepath"
| "report e filepath = Error (message e)"

text \<open>
  \<^verbatim>\<open>fix_file\<close>: each \<^verbatim>\<open>except\<close> clause prints its line and returns \<^verbatim>\<open>False\<close>. An
  exception raised by that print is raised inside the handler, where no clause of this
  \<^verbatim>\<open>try\<close> catches it: it leaves \<^verbatim>\<open>fix_file\<close>.
\<close>

definition fix_file :: "stdout \<Rightarrow> fs \<Rightarrow> path \<Rightarrow> (exn + bool) \<times> fs \<times> event list" where
  "fix_file c files filepath =
     (case fix_file_try c files filepath of
        (Inr b, files', out) \<Rightarrow> (Inr b, files', Fixing filepath # out)
      | (Inl e, files', out) \<Rightarrow>
          if can_print c (report e filepath)
          then (Inr False, files', Fixing filepath # out @ [report e filepath])
          else (Inl UnicodeEncodeError, files', Fixing filepath # out))"

section \<open>The run\<close>

definition files_to_fix :: "path list" where
  "files_to_fix =
     [''src/app/api/calendar/events/route.ts'',
      ''src/app/api/calendar/export/route.ts'',
      ''src/app/api/calendar/preferences/route.ts'',
      ''src/app/api/payments/create/route.ts'',
      ''src/app/api/payments/verify/route.ts'',
      ''src/app/api/reports/batch-download/route.ts'',
      ''src/app/api/teacher/achievements/[id]/route.ts'',
      ''src/app/api/teacher/achievements/route.ts'',
      ''src/app/api/teacher/documents/route.ts'',
      ''src/app/api/teacher/events/[id]/rsvp/route.ts'',
      ''src/app/api/teacher/events/route.ts'',
      ''src/app/api/students/[id]/route.ts'']"

text \<open>
  The loop of \<^verbatim>\<open>main\<close> over the paths still to visit, with the files, the running
  \<^verbatim>\<open>fixed_count\<close> and the lines printed so far. An exception that leaves \<^verbatim>\<open>fix_file\<close>
  ends the loop.
\<close>

fun main_loop ::
  "stdout \<Rightarrow> path list \<Rightarrow> fs \<times> nat \<times> event list \<Rightarrow> (exn + unit) \<times> fs \<times> nat \<times> event list" where
  "main_loop c [] st = (Inr (), st)"
| "main_loop c (filepath # rest) (files, fixed_count, out) =
     (case fix_file c files filepath of
        (Inl e, files', out') \<Rightarrow> (Inl e, files', fixed_count, out @ out')
      | (Inr b, files', out') \<Rightarrow>
          main_loop c rest (files', (if b then fixed_count + 1 else fixed_count), out @ out'))"

text \<open>
  \<^verbatim>\<open>main\<close>: an exception that leaves the loop leaves \<^verbatim>\<open>main\<close> and ends the process
  with a traceback and exit status 1; otherwise the summary and the reminder are printed.
\<close>

definition main :: "stdout \<Rightarrow> fs \<Rightarrow> (exn + unit) \<times> fs \<times> event list" where
  "main c files =
     (case main_loop c files_to_fix (files, 0, [Starting]) of
        (Inl e, files', fixed_count, out) \<Rightarrow> (Inl e, files', out)
      | (Inr u, files', fixed_count, out) \<Rightarrow>
          (Inr (), files', out @ [Summary fixed_count, Reminder]))"

text \<open>
  The successive \<^verbatim>\<open>fix_file\<close> calls of the loop, each on the files as the calls before
  it left them: the path, what the call returned or raised, and what it printed.
\<close>

fun calls :: "stdout \<Rightarrow> path list \<Rightarrow> fs \<Rightarrow> (path \<times> (exn + bool) \<times> event list) list" where
  "calls c [] files = []"
| "calls c (filepath # rest) files =
     (case fix_file c files filepath of
        (Inl e, files', out') \<Rightarrow> [(filepath, Inl e, out')]
      | (Inr b, files', out') \<Rightarrow> (filepath, Inr b, out') # calls c rest files')"

text \<open>
  Of a list of calls: how many returned \<^verbatim>\<open>True\<close>, and all they printed.
\<close>

definition fixed_calls :: "(path \<times> (exn + bool) \<times> event list) list \<Rightarrow> nat" where
  "fixed_calls cs = length (filter (\<lambda>(filepath, r, out). r = Inr True) cs)"

definition printed_by :: "(path \<times> (exn + bool) \<times> event list) list \<Rightarrow> event list" where
  "printed_by cs = concat (map (\<lambda>(filepath, r, out). out) cs)"

text \<open>
  A file is rewritten between two states of the files when it is open to writing in both
  and its content differs: only a write that was completed does that.
\<close>

definition rewritten :: "fs \<Rightarrow> fs \<Rightarrow> path \<Rightarrow> bool" where
  "rewritten before after p =
     (case before p of
        Some (Regular t Writable) \<Rightarrow>
          (case after p of Some (Regular u Writable) \<Rightarrow> u \<noteq> t | _ \<Rightarrow> False)
      | _ \<Rightarrow> False)"

section \<open>The shape of a filter clause\<close>

text \<open>
  The texts the patterns match: a run of whitespace, the \<^verbatim>\<open>schoolId\<close> property, the
  comment with its marker and the end of the line, with a (possibly empty) run of
  whitespace wherever a pattern has \<^verbatim>\<open>\s*\<close>.
\<close>

definition blank :: "pystr \<Rightarrow> bool" where
  "blank w = list_all is_space w"

record gaps =
  indent :: pystr
  gap1 :: pystr
  gap2 :: pystr
  gap3 :: pystr
  gap4 :: pystr
  gap5 :: pystr

definition gaps_ok :: "gaps \<Rightarrow> bool" where
  "gaps_ok g \<longleftrightarrow> indent g \<noteq> [] \<and> blank (indent g) \<and> blank (gap1 g) \<and> blank (gap2 g) \<and>
     blank (gap3 g) \<and> blank (gap4 g) \<and> blank (gap5 g)"

definition marker_text :: "gaps \<Rightarrow> pystr" where
  "marker_text g = gap2 g @ str ''//'' @ gap3 g @ str ''CRITICAL:'' @ gap4 g @
     str ''Filter by school'' @ gap5 g @ [10]"

definition clause1 :: "gaps \<Rightarrow> pystr" where
  "clause1 g = indent g @ str ''schoolId:'' @ gap1 g @ str ''context.schoolId,'' @ marker_text g"

definition clause2 :: "gaps \<Rightarrow> pystr" where
  "clause2 g = indent g @ str ''schoolId,'' @ marker_text g"

text \<open>
  \<open>match_starts_in p before rest\<close>: in the text \<open>before @ rest\<close> a match of \<open>p\<close> begins
  at a position inside \<open>before\<close>.
\<close>

fun match_starts_in :: "regex \<Rightarrow> pystr \<Rightarrow> pystr \<Rightarrow> bool" where
  "match_starts_in p [] rest = False"
| "match_starts_in p (c # cs) rest =
     (match_here p (c # cs @ rest) \<noteq> None \<or> match_starts_in p cs rest)"

text \<open>
  A text with several clauses: \<open>weave cl ps\<close> is, for each \<open>(g, seg)\<close> of \<open>ps\<close> in order,
  the clause \<open>cl g\<close> followed by the segment \<open>seg\<close> of other text.

  \<open>found p cl before ps\<close>: scanning \<open>before @ weave cl ps\<close> for \<open>p\<close> from the left, the
  matches are these clauses and nothing else. No match begins in the text before a clause,
  the clause reaches to the last newline of the whitespace after its marker, and the last
  segment holds no match.
\<close>

fun weave :: "(gaps \<Rightarrow> pystr) \<Rightarrow> (gaps \<times> pystr) list \<Rightarrow> pystr" where
  "weave cl [] = []"
| "weave cl ((g, seg) # ps) = cl g @ seg @ weave cl ps"

fun found :: "regex \<Rightarrow> (gaps \<Rightarrow> pystr) \<Rightarrow> pystr \<Rightarrow> (gaps \<times> pystr) list \<Rightarrow> bool" where
  "found p cl before [] = (\<not> has_match p before)"
| "found p cl before ((g, seg) # ps) =
     (gaps_ok g \<and>
      \<not> match_starts_in p before (cl g @ seg @ weave cl ps) \<and>
      10 \<notin> set (takeWhile is_space (seg @ weave cl ps)) \<and>
      found p cl seg ps)"

text \<open>
  The spacing of the example line of the specification: the line break before it and two
  spaces of indentation, one space in each gap, nothing between the marker and the
  newline.
\<close>

definition spec_example_gaps :: gaps where
  "spec_example_gaps =
     \<lparr>indent = [10, 32, 32], gap1 = [32], gap2 = [32], gap3 = [32], gap4 = [32], gap5 = []\<rparr>"

section \<open>Properties of the matcher and of the substitution\<close>

lemma match_here_suffix: "match_here p s = Some r \<Longrightarrow> suffix r s"
proof (induction p s arbitrary: r rule: match_here.induct)
  case (5 a p c cs)
  then show ?case
    by (auto split: if_splits option.splits intro: suffix_ConsI)
qed (auto split: if_splits intro: suffix_ConsI)

lemma match_here_length: "match_here p s = Some r \<Longrightarrow> length r \<le> length s"
  by (drule match_here_suffix) (rule suffix_length_le)

lemma re_sub_subseq: "subseq (re_sub p s) s"
proof (induction p s rule: re_sub.induct)
  case (1 p)
  show ?case by simp
next
  case (2 p c cs)
  show ?case
  proof (cases "match_here p (c # cs)")
    case None
    with 2 show ?thesis by simp
  next
    case (Some r)
    show ?thesis
    proof (cases "length r < length (c # cs)")
      case True
      from Some have "suffix r (c # cs)" by (rule match_here_suffix)
      then have "subseq r (c # cs)"
        by (auto simp: suffix_def)
      moreover from 2(2) [OF Some True] have "subseq (re_sub p r) r" .
      ultimately have "subseq (re_sub p r) (c # cs)"
        by (rule subseq_order.trans [rotated])
      with Some True show ?thesis by simp
    next
      case False
      with 2(3) [OF Some] Some show ?thesis by simp
    qed
  qed
qed

lemma str_Nil: "str [] = []"
  by (simp add: str_def)

lemma str_Cons: "str (c # cs) = of_char c # str cs"
  by (simp add: str_def)

lemma lit_Nil: "lit [] = []"
  by (simp add: lit_def)

lemma lit_Cons: "lit (c # cs) = One (Lit (of_char c)) # lit cs"
  by (simp add: lit_def)

lemma length_str: "length (str L) = length L"
  by (simp add: str_def)

lemma match_lit:
  "match_here (lit L @ p) s =
     (if prefix (str L) s then match_here p (drop (length L) s) else None)"
proof (induction L arbitrary: s)
  case Nil
  show ?case by (simp add: lit_Nil str_Nil)
next
  case (Cons c L)
  show ?case
  proof (cases s)
    case Nil
    then show ?thesis by (simp add: lit_Cons str_Cons)
  next
    case (Cons d ds)
    with Cons.IH [of ds] show ?thesis by (simp add: lit_Cons str_Cons)
  qed
qed

lemma match_lit_str: "match_here (lit L @ p) (str L @ s) = match_here p s"
  by (simp add: match_lit length_str)

lemma match_star_space:
  "\<not> is_space a \<Longrightarrow>
   match_here (Star Space # One (Lit a) # p) s = match_here (One (Lit a) # p) (dropWhile is_space s)"
proof (induction s)
  case Nil
  show ?case by simp
next
  case (Cons c cs)
  then show ?case by (auto split: option.splits)
qed

lemma match_plus_space:
  "\<not> is_space a \<Longrightarrow>
   match_here (Plus Space # One (Lit a) # p) s =
     (case s of [] \<Rightarrow> None
      | c # cs \<Rightarrow> if is_space c then match_here (One (Lit a) # p) (dropWhile is_space cs) else None)"
  by (cases s) (simp_all add: match_star_space)

lemma is_space_newline: "is_space 10"
  by (simp add: is_space_def)

lemma tail_none:
  "10 \<notin> set (takeWhile is_space s) \<Longrightarrow> match_here [Star Space, One (Lit 10)] s = None"
  by (induction s) (auto simp: is_space_newline split: option.splits)

lemma tail_some:
  "blank w \<Longrightarrow> 10 \<notin> set (takeWhile is_space post) \<Longrightarrow>
   match_here [Star Space, One (Lit 10)] (w @ 10 # post) = Some post"
proof (induction w)
  case Nil
  then show ?case by (simp add: tail_none is_space_newline)
next
  case (Cons c w)
  then show ?case by (simp add: blank_def)
qed

lemma dropWhile_blank: "blank w \<Longrightarrow> dropWhile is_space (w @ s) = dropWhile is_space s"
  by (simp add: blank_def list_all_iff)

lemma match_star_lit:
  assumes "L \<noteq> []" and "\<not> is_space (of_char (hd L))"
  shows "match_here (Star Space # lit L @ p) s = match_here (lit L @ p) (dropWhile is_space s)"
proof -
  from assms(1) obtain c L' where L: "L = c # L'" by (cases L) auto
  with assms(2) show ?thesis by (simp add: lit_Cons match_star_space)
qed

lemma match_plus_lit:
  assumes "L \<noteq> []" and "\<not> is_space (of_char (hd L))"
  shows "match_here (Plus Space # lit L @ p) s =
     (if s \<noteq> [] \<and> is_space (hd s) then match_here (lit L @ p) (dropWhile is_space s) else None)"
proof -
  from assms(1) obtain c L' where L: "L = c # L'" by (cases L) auto
  with assms(2) show ?thesis by (cases s) (simp_all add: lit_Cons match_star_space)
qed

lemma dropWhile_str:
  assumes "L \<noteq> []" and "\<not> is_space (of_char (hd L))"
  shows "dropWhile is_space (str L @ s) = str L @ s"
proof -
  from assms(1) obtain c L' where L: "L = c # L'" by (cases L) auto
  with assms(2) show ?thesis by (simp add: str_Cons)
qed

lemma match_star_lit_str:
  assumes "blank w" and "L \<noteq> []" and "\<not> is_space (of_char (hd L))"
  shows "match_here (Star Space # lit L @ p) (w @ str L @ s) = match_here p s"
  using assms by (simp add: match_star_lit dropWhile_blank dropWhile_str match_lit_str)

lemma match_plus_lit_str:
  assumes "w \<noteq> []" and "blank w" and "L \<noteq> []" and "\<not> is_space (of_char (hd L))"
  shows "match_here (Plus Space # lit L @ p) (w @ str L @ s) = match_here p s"
proof -
  from assms(1,2) have "w @ str L @ s \<noteq> [] \<and> is_space (hd (w @ str L @ s))"
    by (cases w) (simp_all add: blank_def)
  with assms show ?thesis
    by (simp add: match_plus_lit dropWhile_blank dropWhile_str match_lit_str)
qed

lemma nonspace_heads:
  "\<not> is_space (of_char CHR ''s'')" "\<not> is_space (of_char CHR ''c'')"
  "\<not> is_space (of_char CHR ''/'')" "\<not> is_space (of_char CHR ''C'')"
  "\<not> is_space (of_char CHR ''F'')"
  "\<not> is_space 115" "\<not> is_space 99" "\<not> is_space 47" "\<not> is_space 67" "\<not> is_space 70"
  by (simp_all add: is_space_def)

lemma match_marker:
  assumes "gaps_ok g" and "10 \<notin> set (takeWhile is_space post)"
  shows "match_here marker (marker_text g @ post) = Some post"
  using assms
  by (simp add: marker_def marker_text_def gaps_ok_def match_star_lit_str nonspace_heads tail_some)

lemma match_clause1:
  assumes "gaps_ok g" and "10 \<notin> set (takeWhile is_space post)"
  shows "match_here pattern1 (clause1 g @ post) = Some post"
  using assms match_marker [OF assms]
  by (simp add: pattern1_def clause1_def gaps_ok_def match_plus_lit_str match_star_lit_str nonspace_heads)

lemma match_clause2:
  assumes "gaps_ok g" and "10 \<notin> set (takeWhile is_space post)"
  shows "match_here pattern2 (clause2 g @ post) = Some post"
  using assms match_marker [OF assms]
  by (simp add: pattern2_def clause2_def gaps_ok_def match_plus_lit_str nonspace_heads)

lemma re_sub_no_match: "\<not> has_match p s \<Longrightarrow> re_sub p s = s"
  by (induction s) auto

lemma re_sub_skip:
  assumes "\<And>b. b \<noteq> [] \<Longrightarrow> suffix b pre \<Longrightarrow> match_here p (b @ rest) = None"
  shows "re_sub p (pre @ rest) = pre @ re_sub p rest"
  using assms
proof (induction pre)
  case Nil
  show ?case by simp
next
  case (Cons c pre)
  have "match_here p ((c # pre) @ rest) = None"
    by (rule Cons.prems) simp_all
  moreover have "re_sub p (pre @ rest) = pre @ re_sub p rest"
    by (rule Cons.IH) (simp add: Cons.prems suffix_ConsI)
  ultimately show ?case by simp
qed

lemma re_sub_delete:
  assumes "match_here p (m @ post) = Some post" and "m \<noteq> []"
  shows "re_sub p (m @ post) = re_sub p post"
proof -
  from assms(2) obtain c cs where m: "m = c # cs" by (cases m) auto
  with assms(1) show ?thesis by simp
qed

lemma py_in_sublist: "py_in sub s = sublist sub s"
proof (induction s)
  case Nil
  show ?case by simp
next
  case (Cons c cs)
  then show ?case by (cases sub) (simp_all add: sublist_Cons_right)
qed

lemma pattern1_shape:
  "pattern1 = Plus Space # lit ''schoolId:'' @ ([Star Space] @ lit ''context.schoolId,'' @ marker)"
  by (simp add: pattern1_def)

lemma pattern2_shape: "pattern2 = Plus Space # lit ''schoolId,'' @ marker"
  by (simp add: pattern2_def)

lemma re_sub_length: "length (re_sub p s) \<le> length s"
  by (rule list_emb_length) (rule re_sub_subseq)

lemma re_sub_shorter:
  assumes "\<And>s r. match_here p s = Some r \<Longrightarrow> length r < length s"
    and "has_match p s"
  shows "length (re_sub p s) < length s"
  using assms(2)
proof (induction s)
  case Nil
  then obtain r where "match_here p [] = Some r" by auto
  from assms(1) [OF this] show ?case by simp
next
  case (Cons c cs)
  show ?case
  proof (cases "match_here p (c # cs)")
    case None
    with Cons show ?thesis by simp
  next
    case (Some r)
    from assms(1) [OF this] have lt: "length r < length (c # cs)" .
    have "length (re_sub p r) \<le> length r" by (rule re_sub_length)
    with Some lt show ?thesis by simp
  qed
qed

lemma match_plus_consumes: "match_here (Plus a # p) s = Some r \<Longrightarrow> length r < length s"
  by (cases s) (auto split: if_splits dest: match_here_length)

lemma re_sub_pattern1_fixed: "re_sub pattern1 s = s \<longleftrightarrow> \<not> has_match pattern1 s"
proof
  assume eq: "re_sub pattern1 s = s"
  show "\<not> has_match pattern1 s"
  proof
    assume "has_match pattern1 s"
    then have "length (re_sub pattern1 s) < length s"
      unfolding pattern1_shape by (rule re_sub_shorter [rotated]) (rule match_plus_consumes)
    with eq show False by simp
  qed
qed (rule re_sub_no_match)

lemma re_sub_pattern2_fixed: "re_sub pattern2 s = s \<longleftrightarrow> \<not> has_match pattern2 s"
proof
  assume eq: "re_sub pattern2 s = s"
  show "\<not> has_match pattern2 s"
  proof
    assume "has_match pattern2 s"
    then have "length (re_sub pattern2 s) < length s"
      unfolding pattern2_shape by (rule re_sub_shorter [rotated]) (rule match_plus_consumes)
    with eq show False by simp
  qed
qed (rule re_sub_no_match)

lemma fix_user_where_clause_fixed:
  "fix_user_where_clause t = t \<longleftrightarrow> \<not> has_match pattern1 t \<and> \<not> has_match pattern2 t"
proof
  assume eq: "fix_user_where_clause t = t"
  have "length (re_sub pattern2 (re_sub pattern1 t)) \<le> length (re_sub pattern1 t)"
    by (rule re_sub_length)
  with eq have "length t \<le> length (re_sub pattern1 t)"
    by (simp add: fix_user_where_clause_def)
  moreover have "subseq (re_sub pattern1 t) t" by (rule re_sub_subseq)
  ultimately have one: "re_sub pattern1 t = t"
    by (metis le_antisym list_emb_length subseq_same_length)
  with eq have "re_sub pattern2 t = t"
    by (simp add: fix_user_where_clause_def)
  with one show "\<not> has_match pattern1 t \<and> \<not> has_match pattern2 t"
    by (simp add: re_sub_pattern1_fixed re_sub_pattern2_fixed)
next
  assume "\<not> has_match pattern1 t \<and> \<not> has_match pattern2 t"
  then show "fix_user_where_clause t = t"
    by (simp add: fix_user_where_clause_def re_sub_no_match)
qed

lemma fix_content_fst: "fst (fix_content t) = fix_user_where_clause t"
  by (simp add: fix_content_def fix_teacher_references_def fix_user_schools_references_def Let_def)

lemma files_to_fix_distinct: "distinct files_to_fix"
  by (simp add: files_to_fix_def)

section \<open>Clauses as the matches of a scan\<close>

lemma match_starts_in_None:
  assumes "\<not> match_starts_in p pre rest" and "b \<noteq> []" and "suffix b pre"
  shows "match_here p (b @ rest) = None"
  using assms
proof (induction pre)
  case Nil
  then show ?case by simp
next
  case (Cons c cs)
  from Cons.prems(3) consider "b = c # cs" | "suffix b cs"
    by (auto simp: suffix_Cons)
  then show ?case
  proof cases
    case 1
    with Cons.prems(1) show ?thesis by simp
  next
    case 2
    with Cons show ?thesis by simp
  qed
qed

lemma re_sub_leftmost:
  assumes "\<not> match_starts_in p pre (m @ post)"
    and "match_here p (m @ post) = Some post" and "m \<noteq> []"
  shows "re_sub p (pre @ m @ post) = pre @ re_sub p post"
proof -
  have "re_sub p (pre @ m @ post) = pre @ re_sub p (m @ post)"
    by (rule re_sub_skip) (rule match_starts_in_None [OF assms(1)])
  also from assms(2,3) have "re_sub p (m @ post) = re_sub p post"
    by (rule re_sub_delete)
  finally show ?thesis .
qed

lemma clause1_not_Nil: "gaps_ok g \<Longrightarrow> clause1 g \<noteq> []"
  by (simp add: clause1_def gaps_ok_def)

lemma clause2_not_Nil: "gaps_ok g \<Longrightarrow> clause2 g \<noteq> []"
  by (simp add: clause2_def gaps_ok_def)

lemma re_sub_found:
  assumes cl: "\<And>g post. gaps_ok g \<Longrightarrow> 10 \<notin> set (takeWhile is_space post) \<Longrightarrow>
      match_here p (cl g @ post) = Some post"
    and ne: "\<And>g. gaps_ok g \<Longrightarrow> cl g \<noteq> []"
    and "found p cl pre ps"
  shows "re_sub p (pre @ weave cl ps) = pre @ concat (map snd ps)"
  using assms(3)
proof (induction ps arbitrary: pre)
  case Nil
  then show ?case by (simp add: re_sub_no_match)
next
  case (Cons gs ps)
  obtain g seg where gs: "gs = (g, seg)" by (cases gs)
  let ?post = "seg @ weave cl ps"
  from Cons.prems gs have g: "gaps_ok g"
    and first: "\<not> match_starts_in p pre (cl g @ ?post)"
    and eol: "10 \<notin> set (takeWhile is_space ?post)"
    and rest: "found p cl seg ps"
    by simp_all
  from cl [OF g eol] have m: "match_here p (cl g @ ?post) = Some ?post" .
  from first m ne [OF g] have "re_sub p (pre @ cl g @ ?post) = pre @ re_sub p ?post"
    by (rule re_sub_leftmost)
  also from rest have "re_sub p ?post = seg @ concat (map snd ps)"
    by (rule Cons.IH)
  finally show ?case by (simp add: gs)
qed

lemma re_sub_found1:
  "found pattern1 clause1 pre ps \<Longrightarrow>
   re_sub pattern1 (pre @ weave clause1 ps) = pre @ concat (map snd ps)"
  by (rule re_sub_found) (simp_all add: match_clause1 clause1_not_Nil)

lemma re_sub_found2:
  "found pattern2 clause2 pre ps \<Longrightarrow>
   re_sub pattern2 (pre @ weave clause2 ps) = pre @ concat (map snd ps)"
  by (rule re_sub_found) (simp_all add: match_clause2 clause2_not_Nil)

lemma fix_found:
  assumes "found pattern1 clause1 pre1 ps1"
    and "pre1 @ concat (map snd ps1) = pre2 @ weave clause2 ps2"
    and "found pattern2 clause2 pre2 ps2"
  shows "fix_user_where_clause (pre1 @ weave clause1 ps1) = pre2 @ concat (map snd ps2)"
proof -
  from assms(1) have "re_sub pattern1 (pre1 @ weave clause1 ps1) = pre1 @ concat (map snd ps1)"
    by (rule re_sub_found1)
  with assms(2) have "re_sub pattern1 (pre1 @ weave clause1 ps1) = pre2 @ weave clause2 ps2"
    by simp
  moreover from assms(3)
  have "re_sub pattern2 (pre2 @ weave clause2 ps2) = pre2 @ concat (map snd ps2)"
    by (rule re_sub_found2)
  ultimately show ?thesis by (simp add: fix_user_where_clause_def)
qed


section \<open>Properties of \<open>fix_file\<close> and of the run\<close>

lemma print_all_marks: "print_all EncodesMarks ws = (Inr (), ws)"
  by (induction ws) (simp_all add: can_print_def)

lemma fix_file_regular:
  assumes "files p = Some (Regular t m)"
  shows "fix_file EncodesMarks files p =
     (if fst (fix_content t) \<noteq> t then
        (case m of
           Writable \<Rightarrow>
             (Inr True, files(p \<mapsto> Regular (fst (fix_content t)) Writable),
              Fixing p # snd (fix_content t) @ [Fixed p])
         | OpenRaises msg \<Rightarrow>
             (Inr False, files, Fixing p # snd (fix_content t) @ [Error msg])
         | WriteRaises msg k \<Rightarrow>
             (Inr False,
              files(p \<mapsto> Regular (take k (fst (fix_content t))) (WriteRaises msg k)),
              Fixing p # snd (fix_content t) @ [Error msg]))
      else (Inr False, files, Fixing p # snd (fix_content t) @ [NoChanges]))"
  using assms
  by (simp add: fix_file_def fix_file_try_def print_all_marks can_print_def
      split: prod.splits write_mode.splits)

lemma fix_file_missing:
  "files p = None \<Longrightarrow> fix_file EncodesMarks files p = (Inr False, files, [Fixing p, NotFound p])"
  by (simp add: fix_file_def fix_file_try_def can_print_def)

lemma fix_file_unreadable:
  "files p = Some (Unreadable msg) \<Longrightarrow>
   fix_file EncodesMarks files p = (Inr False, files, [Fixing p, Error msg])"
  by (simp add: fix_file_def fix_file_try_def can_print_def)

lemma fix_file_effect:
  assumes "fix_file EncodesMarks files p = (r, files', out)"
  shows "(\<forall>q. q \<noteq> p \<longrightarrow> files' q = files q) \<and> (\<exists>b. r = Inr b) \<and>
         (r = Inr True \<longleftrightarrow> rewritten files files' p)"
proof (cases "files p")
  case None
  with assms show ?thesis by (auto simp: fix_file_missing rewritten_def)
next
  case (Some n)
  show ?thesis
  proof (cases n)
    case (Regular t m)
    with Some assms show ?thesis
      by (cases m) (auto simp: fix_file_regular rewritten_def split: if_splits)
  next
    case (Unreadable msg)
    with Some assms show ?thesis by (auto simp: fix_file_unreadable rewritten_def)
  qed
qed

lemma rewritten_cong:
  "before p = before' p \<Longrightarrow> after p = after' p \<Longrightarrow>
   rewritten before after p = rewritten before' after' p"
  unfolding rewritten_def by (simp only:)

lemma main_loop_other:
  "q \<notin> set ps \<Longrightarrow> fst (snd (main_loop EncodesMarks ps (files, n, out))) q = files q"
proof (induction ps arbitrary: files n out)
  case Nil
  show ?case by simp
next
  case (Cons p ps)
  obtain r files' out' where f: "fix_file EncodesMarks files p = (r, files', out')"
    by (cases "fix_file EncodesMarks files p")
  from fix_file_effect [OF f] obtain b where r: "r = Inr b" by blast
  from fix_file_effect [OF f] Cons.prems have "files' q = files q" by simp
  with Cons f r show ?case by simp
qed

lemma main_loop_calls:
  "\<exists>final. main_loop EncodesMarks ps (files, n, out) =
     (Inr (), final, n + fixed_calls (calls EncodesMarks ps files),
      out @ printed_by (calls EncodesMarks ps files))"
proof (induction ps arbitrary: files n out)
  case Nil
  show ?case by (simp add: fixed_calls_def printed_by_def)
next
  case (Cons p ps)
  obtain r files' out' where f: "fix_file EncodesMarks files p = (r, files', out')"
    by (cases "fix_file EncodesMarks files p")
  from fix_file_effect [OF f] obtain b where r: "r = Inr b" by blast
  from Cons.IH [of files' "if b then n + 1 else n" "out @ out'"]
  obtain final where "main_loop EncodesMarks ps (files', (if b then n + 1 else n), out @ out') =
     (Inr (), final, (if b then n + 1 else n) + fixed_calls (calls EncodesMarks ps files'),
      (out @ out') @ printed_by (calls EncodesMarks ps files'))"
    by blast
  with f r have "main_loop EncodesMarks (p # ps) (files, n, out) =
     (Inr (), final, n + fixed_calls (calls EncodesMarks (p # ps) files),
      out @ printed_by (calls EncodesMarks (p # ps) files))"
    by (simp add: fixed_calls_def printed_by_def)
  then show ?case by blast
qed

lemma calls_paths: "map fst (calls EncodesMarks ps files) = ps"
proof (induction ps arbitrary: files)
  case Nil
  show ?case by simp
next
  case (Cons p ps)
  obtain r files' out' where f: "fix_file EncodesMarks files p = (r, files', out')"
    by (cases "fix_file EncodesMarks files p")
  from fix_file_effect [OF f] obtain b where r: "r = Inr b" by blast
  with f Cons.IH [of files'] show ?case by simp
qed

lemma calls_missing:
  "distinct ps \<Longrightarrow> q \<in> set ps \<Longrightarrow> files q = None \<Longrightarrow>
   (q, Inr False, [Fixing q, NotFound q]) \<in> set (calls EncodesMarks ps files)"
proof (induction ps arbitrary: files)
  case Nil
  then show ?case by simp
next
  case (Cons p ps)
  show ?case
  proof (cases "p = q")
    case True
    with Cons.prems(3) show ?thesis by (simp add: fix_file_missing)
  next
    case False
    obtain r files' out' where f: "fix_file EncodesMarks files p = (r, files', out')"
      by (cases "fix_file EncodesMarks files p")
    from fix_file_effect [OF f] obtain b where r: "r = Inr b" by blast
    from fix_file_effect [OF f] False Cons.prems(3) have "files' q = None" by simp
    with Cons.IH [of files'] Cons.prems(1,2) False
    have "(q, Inr False, [Fixing q, NotFound q]) \<in> set (calls EncodesMarks ps files')"
      by simp
    with f r show ?thesis by simp
  qed
qed

lemma calls_unreadable:
  "distinct ps \<Longrightarrow> q \<in> set ps \<Longrightarrow> files q = Some (Unreadable msg) \<Longrightarrow>
   (q, Inr False, [Fixing q, Error msg]) \<in> set (calls EncodesMarks ps files)"
proof (induction ps arbitrary: files)
  case Nil
  then show ?case by simp
next
  case (Cons p ps)
  show ?case
  proof (cases "p = q")
    case True
    with Cons.prems(3) show ?thesis by (simp add: fix_file_unreadable)
  next
    case False
    obtain r files' out' where f: "fix_file EncodesMarks files p = (r, files', out')"
      by (cases "fix_file EncodesMarks files p")
    from fix_file_effect [OF f] obtain b where r: "r = Inr b" by blast
    from fix_file_effect [OF f] False Cons.prems(3) have "files' q = Some (Unreadable msg)"
      by simp
    with Cons.IH [of files'] Cons.prems(1,2) False
    have "(q, Inr False, [Fixing q, Error msg]) \<in> set (calls EncodesMarks ps files')"
      by simp
    with f r show ?thesis by simp
  qed
qed

lemma main_loop_rewritten:
  "distinct ps \<Longrightarrow>
   fixed_calls (calls EncodesMarks ps files) =
   length (filter (rewritten files (fst (snd (main_loop EncodesMarks ps (files, n, out))))) ps)"
proof (induction ps arbitrary: files n out)
  case Nil
  show ?case by (simp add: fixed_calls_def)
next
  case (Cons p ps)
  obtain r files' out' where f: "fix_file EncodesMarks files p = (r, files', out')"
    by (cases "fix_file EncodesMarks files p")
  from fix_file_effect [OF f] obtain b where r: "r = Inr b" by blast
  let ?n = "if b then n + 1 else n"
  let ?final = "fst (snd (main_loop EncodesMarks ps (files', ?n, out @ out')))"
  from Cons.prems have p: "p \<notin> set ps" and d: "distinct ps" by simp_all
  from fix_file_effect [OF f] have same: "\<And>q. q \<noteq> p \<Longrightarrow> files' q = files q"
    and b: "r = Inr True \<longleftrightarrow> rewritten files files' p"
    by simp_all
  from p have "?final p = files' p" by (rule main_loop_other)
  then have "rewritten files ?final p = rewritten files files' p"
    by (intro rewritten_cong) simp_all
  with b r have head: "b \<longleftrightarrow> rewritten files ?final p" by simp
  have "filter (rewritten files' ?final) ps = filter (rewritten files ?final) ps"
  proof (rule filter_cong [OF refl])
    fix q
    assume "q \<in> set ps"
    with p have "q \<noteq> p" by blast
    then have "files' q = files q" by (rule same)
    then show "rewritten files' ?final q = rewritten files ?final q"
      by (intro rewritten_cong) simp_all
  qed
  with Cons.IH [OF d, of files' ?n "out @ out'"]
  have "fixed_calls (calls EncodesMarks ps files') = length (filter (rewritten files ?final) ps)"
    by simp
  with f r head show ?case by (simp add: fixed_calls_def)
qed

lemma second_run:
  assumes "files p = Some (Regular t Writable)"
    and "fst (fix_content (fst (fix_content t))) = fst (fix_content t)"
  shows "fix_file EncodesMarks (fst (snd (fix_file EncodesMarks files p))) p =
     (Inr False, fst (snd (fix_file EncodesMarks files p)),
      Fixing p # snd (fix_content (fst (fix_content t))) @ [NoChanges])"
proof -
  let ?u = "fst (fix_content t)"
  let ?files1 = "fst (snd (fix_file EncodesMarks files p))"
  from assms(1) have "?files1 p = Some (Regular ?u Writable)"
    by (simp add: fix_file_regular)
  from fix_file_regular [of ?files1 p ?u Writable, OF this] assms(2) show ?thesis by simp
qed

section \<open>The claims\<close>

lemmas eval_fix = fix_user_where_clause_def pattern1_def pattern2_def marker_def lit_def str_def
  is_space_def

lemmas eval_shape = gaps_ok_def blank_def clause1_def clause2_def marker_text_def
  spec_example_gaps_def

text \<open>
  C1 (as amended): let the input be \<open>pre @ m @ post\<close>, where \<open>m\<close> is a filter clause: at
  least one whitespace character, \<^verbatim>\<open>schoolId:\<close> with \<^verbatim>\<open>context.schoolId,\<close> (or the
  shorthand \<^verbatim>\<open>schoolId,\<close>), the comment with its marker, and the whitespace up to the last
  newline after it. Let \<open>m\<close> be the only match: for a clause with \<^verbatim>\<open>context.schoolId\<close>, no
  match of the first pattern begins before it, \<open>post\<close> holds none, and \<open>pre @ post\<close> holds
  no match of the second pattern; for the shorthand, the input holds no match of the
  first pattern, no match of the second begins before the clause, and \<open>post\<close> holds none.
  Then the output of \<open>fix_user_where_clause\<close> is \<open>pre\<close>, then at most whitespace, then
  \<open>post\<close>: the clause is deleted and every character of \<open>pre\<close> and of \<open>post\<close> is
  unaltered. What remains of the whitespace around the clause is left open.
\<close>

theorem clause_deleted_up_to_whitespace:
  assumes "gaps_ok g" and "10 \<notin> set (takeWhile is_space post)"
  shows "(\<not> match_starts_in pattern1 pre (clause1 g @ post) \<and>
          \<not> has_match pattern1 post \<and> \<not> has_match pattern2 (pre @ post) \<longrightarrow>
          (\<exists>keep. blank keep \<and>
             fix_user_where_clause (pre @ clause1 g @ post) = pre @ keep @ post)) \<and>
         (\<not> has_match pattern1 (pre @ clause2 g @ post) \<and>
          \<not> match_starts_in pattern2 pre (clause2 g @ post) \<and> \<not> has_match pattern2 post \<longrightarrow>
          (\<exists>keep. blank keep \<and>
             fix_user_where_clause (pre @ clause2 g @ post) = pre @ keep @ post))"
proof (intro conjI impI)
  assume h: "\<not> match_starts_in pattern1 pre (clause1 g @ post) \<and>
          \<not> has_match pattern1 post \<and> \<not> has_match pattern2 (pre @ post)"
  from assms have "match_here pattern1 (clause1 g @ post) = Some post"
    by (rule match_clause1)
  with h assms(1) have "re_sub pattern1 (pre @ clause1 g @ post) = pre @ re_sub pattern1 post"
    by (intro re_sub_leftmost) (simp_all add: clause1_not_Nil)
  with h have "fix_user_where_clause (pre @ clause1 g @ post) = pre @ [] @ post"
    by (simp add: fix_user_where_clause_def re_sub_no_match)
  moreover have "blank []" by (simp add: blank_def)
  ultimately show "\<exists>keep. blank keep \<and>
      fix_user_where_clause (pre @ clause1 g @ post) = pre @ keep @ post"
    by blast
next
  assume h: "\<not> has_match pattern1 (pre @ clause2 g @ post) \<and>
          \<not> match_starts_in pattern2 pre (clause2 g @ post) \<and> \<not> has_match pattern2 post"
  from assms have "match_here pattern2 (clause2 g @ post) = Some post"
    by (rule match_clause2)
  with h assms(1) have "re_sub pattern2 (pre @ clause2 g @ post) = pre @ re_sub pattern2 post"
    by (intro re_sub_leftmost) (simp_all add: clause2_not_Nil)
  with h have "fix_user_where_clause (pre @ clause2 g @ post) = pre @ [] @ post"
    by (simp add: fix_user_where_clause_def re_sub_no_match)
  moreover have "blank []" by (simp add: blank_def)
  ultimately show "\<exists>keep. blank keep \<and>
      fix_user_where_clause (pre @ clause2 g @ post) = pre @ keep @ post"
    by blast
qed

text \<open>
  The theorem of C1 at the example line of the specification,
  \<^verbatim>\<open>  schoolId: context.schoolId, // CRITICAL: Filter by school\<close>, and at its shorthand,
  after a line that mentions \<^verbatim>\<open>schoolId\<close> itself and before a line \<^verbatim>\<open>b\<close>.
\<close>

theorem clause_deleted_up_to_whitespace_witness:
  "gaps_ok spec_example_gaps \<and>
   clause1 spec_example_gaps =
     [10] @ str ''  schoolId: context.schoolId, // CRITICAL: Filter by school'' @ [10] \<and>
   (\<exists>keep. blank keep \<and>
      fix_user_where_clause
        (str ''const { schoolId } = context;'' @ clause1 spec_example_gaps @ str ''b'' @ [10]) =
      str ''const { schoolId } = context;'' @ keep @ str ''b'' @ [10]) \<and>
   (\<exists>keep. blank keep \<and>
      fix_user_where_clause
        (str ''const { schoolId } = context;'' @ clause2 spec_example_gaps @ str ''b'' @ [10]) =
      str ''const { schoolId } = context;'' @ keep @ str ''b'' @ [10])"
proof -
  let ?pre = "str ''const { schoolId } = context;''"
  let ?post = "str ''b'' @ [10]"
  have g: "gaps_ok spec_example_gaps"
    by (simp add: eval_shape str_def is_space_def)
  have c: "clause1 spec_example_gaps =
     [10] @ str ''  schoolId: context.schoolId, // CRITICAL: Filter by school'' @ [10]"
    by (simp add: eval_shape str_def is_space_def)
  have post: "10 \<notin> set (takeWhile is_space ?post)"
    by (simp add: str_def is_space_def)
  have one: "\<not> match_starts_in pattern1 ?pre (clause1 spec_example_gaps @ ?post) \<and>
      \<not> has_match pattern1 ?post \<and> \<not> has_match pattern2 (?pre @ ?post)"
    by (simp add: eval_shape eval_fix)
  have two: "\<not> has_match pattern1 (?pre @ clause2 spec_example_gaps @ ?post) \<and>
      \<not> match_starts_in pattern2 ?pre (clause2 spec_example_gaps @ ?post) \<and>
      \<not> has_match pattern2 ?post"
    by (simp add: eval_shape eval_fix)
  from clause_deleted_up_to_whitespace [OF g post, of ?pre] one two g c show ?thesis
    by blast
qed

text \<open>
  C1 as stated fails. With no whitespace before \<^verbatim>\<open>schoolId\<close> the line is not deleted.
  With the clause line between the lines \<^verbatim>\<open>a\<close> and \<^verbatim>\<open>b\<close>, the output is \<^verbatim>\<open>ab\n\<close> and
  not the input without that line, \<^verbatim>\<open>a\nb\n\<close>; with an empty line after the clause line
  the output is \<^verbatim>\<open>ab\n\<close> as well. And with a second clause line after it, that other
  line is deleted too.
\<close>

theorem clause_line_not_deleted_exactly:
  "fix_user_where_clause
     (str ''schoolId: context.schoolId, // CRITICAL: Filter by school'' @ [10]) =
     str ''schoolId: context.schoolId, // CRITICAL: Filter by school'' @ [10] \<and>
   fix_user_where_clause
     (str ''a'' @ [10] @ str ''  schoolId: context.schoolId, // CRITICAL: Filter by school'' @
      [10] @ str ''b'' @ [10]) = str ''ab'' @ [10] \<and>
   fix_user_where_clause
     (str ''a'' @ [10] @ str ''  schoolId: context.schoolId, // CRITICAL: Filter by school'' @
      [10] @ str ''b'' @ [10]) \<noteq> str ''a'' @ [10] @ str ''b'' @ [10] \<and>
   fix_user_where_clause
     (str ''a'' @ [10] @ str ''  schoolId: context.schoolId, // CRITICAL: Filter by school'' @
      [10] @ [10] @ str ''b'' @ [10]) = str ''ab'' @ [10] \<and>
   fix_user_where_clause
     (str ''a'' @ [10] @ str ''  schoolId: context.schoolId, // CRITICAL: Filter by school'' @
      [10] @ str ''  schoolId, // CRITICAL: Filter by school'' @ [10] @ str ''b'' @ [10]) \<noteq>
     str ''a'' @ [10] @ str ''  schoolId, // CRITICAL: Filter by school'' @ [10] @ str ''b'' @ [10]"
  by (simp add: eval_fix)




text \<open>
  C3 (as amended): let the matches of the first pattern in the input, scanning from the
  left, be filter clauses with \<^verbatim>\<open>context.schoolId\<close>, let the matches of the second
  pattern in what is left of the input be shorthand clauses, and let what is left after
  both hold no match of either pattern, so that no deletion has joined text into a new
  match. Then applying the three passes a second time to their own output changes
  nothing; and when standard output can encode the marks, a second run of \<open>fix_file\<close> on
  the same file, which is open to writing, reports that no changes are needed, leaves
  the files as they are and returns \<open>False\<close>.
\<close>

theorem second_fix_changes_nothing:
  assumes "found pattern1 clause1 pre1 ps1"
    and "pre1 @ concat (map snd ps1) = pre2 @ weave clause2 ps2"
    and "found pattern2 clause2 pre2 ps2"
    and "\<not> has_match pattern1 (pre2 @ concat (map snd ps2))"
    and "\<not> has_match pattern2 (pre2 @ concat (map snd ps2))"
    and "files p = Some (Regular (pre1 @ weave clause1 ps1) Writable)"
  shows "fst (fix_content (fst (fix_content (pre1 @ weave clause1 ps1)))) =
           fst (fix_content (pre1 @ weave clause1 ps1)) \<and>
         fix_file EncodesMarks (fst (snd (fix_file EncodesMarks files p))) p =
           (Inr False, fst (snd (fix_file EncodesMarks files p)),
            Fixing p # snd (fix_content (fst (fix_content (pre1 @ weave clause1 ps1)))) @
              [NoChanges])"
proof -
  let ?t = "pre1 @ weave clause1 ps1"
  let ?u = "pre2 @ concat (map snd ps2)"
  from assms(1,2,3) have "fix_user_where_clause ?t = ?u"
    by (rule fix_found)
  moreover from assms(4,5) have "fix_user_where_clause ?u = ?u"
    by (simp add: fix_user_where_clause_fixed)
  ultimately have twice: "fst (fix_content (fst (fix_content ?t))) = fst (fix_content ?t)"
    by (simp add: fix_content_fst)
  from assms(6) twice
  have "fix_file EncodesMarks (fst (snd (fix_file EncodesMarks files p))) p =
     (Inr False, fst (snd (fix_file EncodesMarks files p)),
      Fixing p # snd (fix_content (fst (fix_content ?t))) @ [NoChanges])"
    by (rule second_run)
  with twice show ?thesis by blast
qed

text \<open>
  The theorem of C3 at a text with two clause lines with \<^verbatim>\<open>context.schoolId\<close> and a
  shorthand clause line, after the lines \<^verbatim>\<open>a\<close>, \<^verbatim>\<open>b\<close> and \<^verbatim>\<open>c\<close> and before the line
  \<^verbatim>\<open>d\<close>.
\<close>

theorem second_fix_changes_nothing_witness:
  "fst (fix_content (fst (fix_content
     (str ''a'' @ clause1 spec_example_gaps @ str ''b'' @ clause1 spec_example_gaps @
      str ''c'' @ clause2 spec_example_gaps @ str ''d'' @ [10])))) =
   fst (fix_content
     (str ''a'' @ clause1 spec_example_gaps @ str ''b'' @ clause1 spec_example_gaps @
      str ''c'' @ clause2 spec_example_gaps @ str ''d'' @ [10])) \<and>
   fst (fix_file EncodesMarks
     (fst (snd (fix_file EncodesMarks
        (empty_fs(''route.ts'' \<mapsto> Regular
           (str ''a'' @ clause1 spec_example_gaps @ str ''b'' @ clause1 spec_example_gaps @
            str ''c'' @ clause2 spec_example_gaps @ str ''d'' @ [10]) Writable))
        ''route.ts'')))
     ''route.ts'') = Inr False"
proof -
  let ?seg = "str ''c'' @ clause2 spec_example_gaps @ str ''d'' @ [10]"
  let ?ps1 = "[(spec_example_gaps, str ''b''), (spec_example_gaps, ?seg)]"
  let ?ps2 = "[(spec_example_gaps, str ''d'' @ [10])]"
  let ?t = "str ''a'' @ weave clause1 ?ps1"
  let ?files = "empty_fs(''route.ts'' \<mapsto> Regular ?t Writable)"
  have f1: "found pattern1 clause1 (str ''a'') ?ps1"
    by (simp add: eval_shape eval_fix)
  have j: "str ''a'' @ concat (map snd ?ps1) = str ''abc'' @ weave clause2 ?ps2"
    by (simp add: str_def)
  have f2: "found pattern2 clause2 (str ''abc'') ?ps2"
    by (simp add: eval_shape eval_fix)
  have n1: "\<not> has_match pattern1 (str ''abc'' @ concat (map snd ?ps2))"
    and n2: "\<not> has_match pattern2 (str ''abc'' @ concat (map snd ?ps2))"
    by (simp_all add: eval_fix)
  have f: "?files ''route.ts'' = Some (Regular ?t Writable)"
    by simp
  from second_fix_changes_nothing [of "str ''a''" ?ps1 "str ''abc''" ?ps2 ?files "''route.ts''",
      OF f1 j f2 n1 n2 f]
  show ?thesis by simp
qed

text \<open>
  C3 as stated fails: deleting a match can join the text before it and after it into a
  new match. The first application leaves a whole clause line, which the second one
  deletes; so the second run of \<open>fix_file\<close> writes the file again and returns \<open>True\<close>.
\<close>

theorem fix_content_not_idempotent:
  "fst (fix_content
     ([10] @ str '' schoolId'' @ [10] @ str '' schoolId, // CRITICAL: Filter by school'' @
      [10] @ str '', // CRITICAL: Filter by school'' @ [10])) =
     [10] @ str '' schoolId, // CRITICAL: Filter by school'' @ [10] \<and>
   fst (fix_content ([10] @ str '' schoolId, // CRITICAL: Filter by school'' @ [10])) = [] \<and>
   fst (fix_file EncodesMarks
     (fst (snd (fix_file EncodesMarks
        (empty_fs(''route.ts'' \<mapsto> Regular
           ([10] @ str '' schoolId'' @ [10] @ str '' schoolId, // CRITICAL: Filter by school'' @
            [10] @ str '', // CRITICAL: Filter by school'' @ [10]) Writable))
        ''route.ts'')))
     ''route.ts'') = Inr True"
proof -
  let ?t = "[10] @ str '' schoolId'' @ [10] @ str '' schoolId, // CRITICAL: Filter by school'' @
      [10] @ str '', // CRITICAL: Filter by school'' @ [10]"
  let ?u = "[10] @ str '' schoolId, // CRITICAL: Filter by school'' @ [10]"
  have t: "fst (fix_content ?t) = ?u"
    by (simp add: fix_content_fst eval_fix)
  have u: "fst (fix_content ?u) = []"
    by (simp add: fix_content_fst eval_fix)
  have ne: "?u \<noteq> ?t" "[] \<noteq> ?u"
    by (simp_all add: str_def)
  have ft: "(empty_fs(''route.ts'' \<mapsto> Regular ?t Writable)) ''route.ts'' =
      Some (Regular ?t Writable)"
    and fu: "(empty_fs(''route.ts'' \<mapsto> Regular ?u Writable)) ''route.ts'' =
      Some (Regular ?u Writable)"
    by simp_all
  from fix_file_regular [of "empty_fs(''route.ts'' \<mapsto> Regular ?t Writable)" "''route.ts''" ?t
      Writable, OF ft] t ne(1)
  have "fst (snd (fix_file EncodesMarks (empty_fs(''route.ts'' \<mapsto> Regular ?t Writable))
      ''route.ts'')) = empty_fs(''route.ts'' \<mapsto> Regular ?u Writable)"
    by simp
  moreover
  from fix_file_regular [of "empty_fs(''route.ts'' \<mapsto> Regular ?u Writable)" "''route.ts''" ?u
      Writable, OF fu] u ne(2)
  have "fst (fix_file EncodesMarks (empty_fs(''route.ts'' \<mapsto> Regular ?u Writable))
      ''route.ts'') = Inr True"
    by simp
  ultimately show ?thesis using t u by simp
qed

text \<open>
  C4 (as amended): when standard output can encode the marks, then for every file that
  is read successfully \<open>fix_file\<close> opens it for writing if and only if the transformed
  content differs from the original, and returns \<open>True\<close> exactly when it differs and the
  write is completed: the new content is then in the file. When opening the file or
  writing it raises, the error is reported and \<open>False\<close> is returned. If the content is
  unchanged, nothing is written, a no-op is reported and \<open>False\<close> is returned; this is
  the case whenever the input holds no match of either pattern, and then the output
  equals the input.
\<close>

theorem fix_file_writes_iff_changed:
  assumes "files p = Some (Regular t m)"
  shows "fix_file EncodesMarks files p =
     (if fst (fix_content t) \<noteq> t then
        (case m of
           Writable \<Rightarrow>
             (Inr True, files(p \<mapsto> Regular (fst (fix_content t)) Writable),
              Fixing p # snd (fix_content t) @ [Fixed p])
         | OpenRaises msg \<Rightarrow>
             (Inr False, files, Fixing p # snd (fix_content t) @ [Error msg])
         | WriteRaises msg k \<Rightarrow>
             (Inr False,
              files(p \<mapsto> Regular (take k (fst (fix_content t))) (WriteRaises msg k)),
              Fixing p # snd (fix_content t) @ [Error msg]))
      else (Inr False, files, Fixing p # snd (fix_content t) @ [NoChanges])) \<and>
     (\<not> has_match pattern1 t \<and> \<not> has_match pattern2 t \<longrightarrow>
        fst (fix_content t) = t \<and>
        fix_file EncodesMarks files p =
          (Inr False, files, Fixing p # snd (fix_content t) @ [NoChanges]))"
proof -
  have same: "fst (fix_content t) = t" if "\<not> has_match pattern1 t \<and> \<not> has_match pattern2 t"
    using that by (simp add: fix_content_fst fix_user_where_clause_fixed)
  have run: "fix_file EncodesMarks files p =
     (if fst (fix_content t) \<noteq> t then
        (case m of
           Writable \<Rightarrow>
             (Inr True, files(p \<mapsto> Regular (fst (fix_content t)) Writable),
              Fixing p # snd (fix_content t) @ [Fixed p])
         | OpenRaises msg \<Rightarrow>
             (Inr False, files, Fixing p # snd (fix_content t) @ [Error msg])
         | WriteRaises msg k \<Rightarrow>
             (Inr False,
              files(p \<mapsto> Regular (take k (fst (fix_content t))) (WriteRaises msg k)),
              Fixing p # snd (fix_content t) @ [Error msg]))
      else (Inr False, files, Fixing p # snd (fix_content t) @ [NoChanges]))"
    using assms
    by (simp add: fix_file_def fix_file_try_def print_all_marks can_print_def
        split: prod.splits write_mode.splits)
  have "fst (fix_content t) = t \<and>
      fix_file EncodesMarks files p =
        (Inr False, files, Fixing p # snd (fix_content t) @ [NoChanges])"
    if "\<not> has_match pattern1 t \<and> \<not> has_match pattern2 t"
    using same [OF that] run by simp
  with run show ?thesis by blast
qed

text \<open>
  The theorem of C4 at a file with the example of the specification, open to writing (it
  is rewritten), and at a file without a match (it is left alone).
\<close>

theorem fix_file_writes_iff_changed_witness:
  "fix_file EncodesMarks
     (empty_fs(''route.ts'' \<mapsto>
        Regular (str ''a'' @ clause1 spec_example_gaps @ str ''b'' @ [10]) Writable))
     ''route.ts'' =
     (Inr True, empty_fs(''route.ts'' \<mapsto> Regular (str ''ab'' @ [10]) Writable),
      [Fixing ''route.ts'', Fixed ''route.ts'']) \<and>
   fix_file EncodesMarks (empty_fs(''route.ts'' \<mapsto> Regular (str ''ab'' @ [10]) Writable))
     ''route.ts'' =
     (Inr False, empty_fs(''route.ts'' \<mapsto> Regular (str ''ab'' @ [10]) Writable),
      [Fixing ''route.ts'', NoChanges])"
proof -
  let ?t = "str ''a'' @ clause1 spec_example_gaps @ str ''b'' @ [10]"
  let ?u = "str ''ab'' @ [10]"
  have ft: "(empty_fs(''route.ts'' \<mapsto> Regular ?t Writable)) ''route.ts'' =
      Some (Regular ?t Writable)"
    and fu: "(empty_fs(''route.ts'' \<mapsto> Regular ?u Writable)) ''route.ts'' =
      Some (Regular ?u Writable)"
    by simp_all
  have t: "fst (fix_content ?t) = ?u" and u: "fst (fix_content ?u) = ?u"
    by (simp_all add: fix_content_fst eval_shape eval_fix)
  have w: "snd (fix_content ?t) = []" "snd (fix_content ?u) = []"
    by (simp_all add: fix_content_def fix_teacher_references_def
        fix_user_schools_references_def eval_shape eval_fix)
  have ne: "?u \<noteq> ?t"
    by (simp add: eval_shape str_def is_space_def)
  from fix_file_writes_iff_changed
      [of "empty_fs(''route.ts'' \<mapsto> Regular ?t Writable)" "''route.ts''" ?t Writable, OF ft]
    fix_file_writes_iff_changed
      [of "empty_fs(''route.ts'' \<mapsto> Regular ?u Writable)" "''route.ts''" ?u Writable, OF fu]
    t u w ne
  show ?thesis by simp
qed

text \<open>
  C4 as stated fails. For a file that can be read but not opened for writing the content
  differs and \<open>fix_file\<close> returns \<open>False\<close>. And when standard output cannot encode the
  marks, a file whose content differs is written and \<open>fix_file\<close> then raises at the
  print of its result, returning nothing.
\<close>

theorem fix_file_not_true_though_changed:
  "fst (fix_content ([10] @ str '' schoolId, // CRITICAL: Filter by school'' @ [10])) \<noteq>
     [10] @ str '' schoolId, // CRITICAL: Filter by school'' @ [10] \<and>
   fix_file EncodesMarks
     (empty_fs(''route.ts'' \<mapsto>
        Regular ([10] @ str '' schoolId, // CRITICAL: Filter by school'' @ [10])
          (OpenRaises ''Permission denied'')))
     ''route.ts'' =
     (Inr False,
      empty_fs(''route.ts'' \<mapsto>
        Regular ([10] @ str '' schoolId, // CRITICAL: Filter by school'' @ [10])
          (OpenRaises ''Permission denied'')),
      [Fixing ''route.ts'', Error ''Permission denied'']) \<and>
   fix_file NoMarks
     (empty_fs(''route.ts'' \<mapsto>
        Regular ([10] @ str '' schoolId, // CRITICAL: Filter by school'' @ [10]) Writable))
     ''route.ts'' =
     (Inl UnicodeEncodeError, empty_fs(''route.ts'' \<mapsto> Regular [] Writable),
      [Fixing ''route.ts''])"
proof -
  let ?t = "[10] @ str '' schoolId, // CRITICAL: Filter by school'' @ [10]"
  have t: "fst (fix_content ?t) = []"
    by (simp add: fix_content_fst eval_fix)
  have w: "snd (fix_content ?t) = []"
    by (simp add: fix_content_def fix_teacher_references_def
        fix_user_schools_references_def eval_fix)
  from t w have c: "fix_content ?t = ([], [])"
    by (simp add: prod_eq_iff)
  have ne: "[] \<noteq> ?t"
    by (simp add: str_def)
  have f: "(empty_fs(''route.ts'' \<mapsto> Regular ?t (OpenRaises ''Permission denied'')))
      ''route.ts'' = Some (Regular ?t (OpenRaises ''Permission denied''))"
    by simp
  from fix_file_regular [of "empty_fs(''route.ts'' \<mapsto> Regular ?t (OpenRaises ''Permission denied''))"
      "''route.ts''" ?t "OpenRaises ''Permission denied''", OF f] t w ne
  have refused: "fix_file EncodesMarks
      (empty_fs(''route.ts'' \<mapsto> Regular ?t (OpenRaises ''Permission denied''))) ''route.ts'' =
     (Inr False, empty_fs(''route.ts'' \<mapsto> Regular ?t (OpenRaises ''Permission denied'')),
      [Fixing ''route.ts'', Error ''Permission denied''])"
    by simp
  from c ne have narrow: "fix_file NoMarks (empty_fs(''route.ts'' \<mapsto> Regular ?t Writable))
      ''route.ts'' =
     (Inl UnicodeEncodeError, empty_fs(''route.ts'' \<mapsto> Regular [] Writable),
      [Fixing ''route.ts''])"
    by (simp add: fix_file_def fix_file_try_def can_print_def)
  from t ne refused narrow show ?thesis by simp
qed

text \<open>
  C5 (as amended): when standard output can encode the marks, whatever exception the
  body of \<open>fix_file\<close> raises, of either kind and at the read or at the write, \<open>fix_file\<close>
  reports it after what was printed so far and returns \<open>False\<close>. A missing path raises
  \<^verbatim>\<open>FileNotFoundError\<close>, an unreadable one and a write that raises give another
  exception. And \<open>main\<close>, on any files, returns normally; what it prints is the opening
  line, what the calls of \<open>fix_file\<close> on the paths of the list print, in the order of the
  list, then the summary and the reminder; and every listed path that is missing or
  unreadable has its call, which returned \<open>False\<close> with its report, among them.
\<close>

theorem fix_file_catches_errors:
  "(\<forall>e files' out. fix_file_try EncodesMarks files p = (Inl e, files', out) \<longrightarrow>
      fix_file EncodesMarks files p = (Inr False, files', Fixing p # out @ [report e p])) \<and>
   (files p = None \<longrightarrow>
      fix_file EncodesMarks files p = (Inr False, files, [Fixing p, NotFound p])) \<and>
   (\<forall>msg. files p = Some (Unreadable msg) \<longrightarrow>
      fix_file EncodesMarks files p = (Inr False, files, [Fixing p, Error msg])) \<and>
   (\<forall>t msg. files p = Some (Regular t (OpenRaises msg)) \<and> fst (fix_content t) \<noteq> t \<longrightarrow>
      fix_file EncodesMarks files p =
        (Inr False, files, Fixing p # snd (fix_content t) @ [Error msg])) \<and>
   (\<forall>t msg k. files p = Some (Regular t (WriteRaises msg k)) \<and> fst (fix_content t) \<noteq> t \<longrightarrow>
      fst (fix_file EncodesMarks files p) = Inr False \<and>
      snd (snd (fix_file EncodesMarks files p)) =
        Fixing p # snd (fix_content t) @ [Error msg]) \<and>
   fst (main EncodesMarks files) = Inr () \<and>
   snd (snd (main EncodesMarks files)) =
     Starting # printed_by (calls EncodesMarks files_to_fix files) @
       [Summary (fixed_calls (calls EncodesMarks files_to_fix files)), Reminder] \<and>
   map fst (calls EncodesMarks files_to_fix files) = files_to_fix \<and>
   (\<forall>q\<in>set files_to_fix. files q = None \<longrightarrow>
      (q, Inr False, [Fixing q, NotFound q]) \<in> set (calls EncodesMarks files_to_fix files)) \<and>
   (\<forall>q\<in>set files_to_fix. \<forall>msg. files q = Some (Unreadable msg) \<longrightarrow>
      (q, Inr False, [Fixing q, Error msg]) \<in> set (calls EncodesMarks files_to_fix files))"
proof (intro conjI allI impI ballI)
  fix e files' out
  assume "fix_file_try EncodesMarks files p = (Inl e, files', out)"
  then show "fix_file EncodesMarks files p =
      (Inr False, files', Fixing p # out @ [report e p])"
    by (simp add: fix_file_def can_print_def)
next
  assume "files p = None"
  then show "fix_file EncodesMarks files p = (Inr False, files, [Fixing p, NotFound p])"
    by (rule fix_file_missing)
next
  fix msg
  assume "files p = Some (Unreadable msg)"
  then show "fix_file EncodesMarks files p = (Inr False, files, [Fixing p, Error msg])"
    by (rule fix_file_unreadable)
next
  fix t msg
  assume "files p = Some (Regular t (OpenRaises msg)) \<and> fst (fix_content t) \<noteq> t"
  then show "fix_file EncodesMarks files p =
      (Inr False, files, Fixing p # snd (fix_content t) @ [Error msg])"
    by (simp add: fix_file_regular)
next
  fix t msg k
  assume "files p = Some (Regular t (WriteRaises msg k)) \<and> fst (fix_content t) \<noteq> t"
  then show "fst (fix_file EncodesMarks files p) = Inr False"
    by (simp add: fix_file_regular)
next
  fix t msg k
  assume "files p = Some (Regular t (WriteRaises msg k)) \<and> fst (fix_content t) \<noteq> t"
  then show "snd (snd (fix_file EncodesMarks files p)) =
      Fixing p # snd (fix_content t) @ [Error msg]"
    by (simp add: fix_file_regular)
next
  from main_loop_calls [of files_to_fix files 0 "[Starting]"]
  show "fst (main EncodesMarks files) = Inr ()"
    by (auto simp: main_def)
next
  from main_loop_calls [of files_to_fix files 0 "[Starting]"]
  show "snd (snd (main EncodesMarks files)) =
     Starting # printed_by (calls EncodesMarks files_to_fix files) @
       [Summary (fixed_calls (calls EncodesMarks files_to_fix files)), Reminder]"
    by (auto simp: main_def)
next
  show "map fst (calls EncodesMarks files_to_fix files) = files_to_fix"
    by (rule calls_paths)
next
  fix q
  assume "q \<in> set files_to_fix" and "files q = None"
  with files_to_fix_distinct
  show "(q, Inr False, [Fixing q, NotFound q]) \<in> set (calls EncodesMarks files_to_fix files)"
    by (rule calls_missing)
next
  fix q msg
  assume "q \<in> set files_to_fix" and "files q = Some (Unreadable msg)"
  with files_to_fix_distinct
  show "(q, Inr False, [Fixing q, Error msg]) \<in> set (calls EncodesMarks files_to_fix files)"
    by (rule calls_unreadable)
qed

text \<open>
  The theorem of C5 where no file of the list exists, and at a path that is a directory:
  the error is reported and \<open>False\<close> is returned, the run returns normally, and the call
  for the last path of the list is among its calls.
\<close>

theorem fix_file_catches_errors_witness:
  "fix_file EncodesMarks empty_fs ''src/app/api/students/[id]/route.ts'' =
     (Inr False, empty_fs, [Fixing ''src/app/api/students/[id]/route.ts'',
        NotFound ''src/app/api/students/[id]/route.ts'']) \<and>
   fix_file EncodesMarks (empty_fs(''route.ts'' \<mapsto> Unreadable ''Is a directory''))
     ''route.ts'' =
     (Inr False, empty_fs(''route.ts'' \<mapsto> Unreadable ''Is a directory''),
      [Fixing ''route.ts'', Error ''Is a directory'']) \<and>
   fst (main EncodesMarks empty_fs) = Inr () \<and>
   (''src/app/api/students/[id]/route.ts'', Inr False,
    [Fixing ''src/app/api/students/[id]/route.ts'',
     NotFound ''src/app/api/students/[id]/route.ts'']) \<in>
     set (calls EncodesMarks files_to_fix empty_fs)"
proof -
  let ?p = "''src/app/api/students/[id]/route.ts''"
  have m: "?p \<in> set files_to_fix"
    by (simp add: files_to_fix_def)
  have e: "empty_fs ?p = None"
    by (simp add: empty_fs_def)
  have d: "(empty_fs(''route.ts'' \<mapsto> Unreadable ''Is a directory'')) ''route.ts'' =
      Some (Unreadable ''Is a directory'')"
    by simp
  note one = fix_file_catches_errors [of empty_fs ?p]
  note two = fix_file_catches_errors
    [of "empty_fs(''route.ts'' \<mapsto> Unreadable ''Is a directory'')" "''route.ts''"]
  from one e have a: "fix_file EncodesMarks empty_fs ?p =
      (Inr False, empty_fs, [Fixing ?p, NotFound ?p])"
    by blast
  from two d have b: "fix_file EncodesMarks
      (empty_fs(''route.ts'' \<mapsto> Unreadable ''Is a directory'')) ''route.ts'' =
     (Inr False, empty_fs(''route.ts'' \<mapsto> Unreadable ''Is a directory''),
      [Fixing ''route.ts'', Error ''Is a directory''])"
    by blast
  from one have c: "fst (main EncodesMarks empty_fs) = Inr ()"
    by blast
  from one m e have "(?p, Inr False, [Fixing ?p, NotFound ?p]) \<in>
      set (calls EncodesMarks files_to_fix empty_fs)"
    by blast
  with a b c show ?thesis by blast
qed

text \<open>
  C5 as stated fails when standard output cannot encode the marks: for a missing file the
  exception is caught, the print of its report raises inside the handler, \<open>fix_file\<close>
  raises instead of returning \<open>False\<close>, and \<open>main\<close> ends there, after the first path.
\<close>

theorem narrow_stdout_ends_the_run:
  "fix_file NoMarks empty_fs ''src/app/api/calendar/events/route.ts'' =
     (Inl UnicodeEncodeError, empty_fs, [Fixing ''src/app/api/calendar/events/route.ts'']) \<and>
   main NoMarks empty_fs =
     (Inl UnicodeEncodeError, empty_fs,
      [Starting, Fixing ''src/app/api/calendar/events/route.ts''])"
  by (simp add: main_def files_to_fix_def fix_file_def fix_file_try_def can_print_def
      empty_fs_def)

text \<open>
  C6: the two detection passes return their input unchanged for every input; all they
  can do is print a warning.
\<close>

theorem detection_passes_keep_content:
  "fst (fix_teacher_references content) = content \<and>
   fst (fix_user_schools_references content) = content \<and>
   set (snd (fix_teacher_references content)) \<subseteq> {WarnTeacher} \<and>
   set (snd (fix_user_schools_references content)) \<subseteq> {WarnUserSchools}"
  by (simp add: fix_teacher_references_def fix_user_schools_references_def)

text \<open>
  C7: \<open>fix_teacher_references\<close> prints its warning if and only if \<^verbatim>\<open>user.teacher\<close>
  occurs in the content and \<^verbatim>\<open>include:\<close> does not.
\<close>

theorem fix_teacher_references_warns_iff:
  "snd (fix_teacher_references content) =
     (if (\<exists>a b. content = a @ str ''user.teacher'' @ b) \<and>
         \<not> (\<exists>a b. content = a @ str ''include:'' @ b)
      then [WarnTeacher] else [])"
  by (simp add: fix_teacher_references_def py_in_sublist sublist_def)

text \<open>
  C8 (as amended): when standard output can encode the marks, \<open>main\<close> calls \<open>fix_file\<close>
  on each of the twelve paths in the order of the list and returns normally, and the
  count of its summary line is the number of calls that returned \<open>True\<close>, which is the
  number of listed files whose write the run has completed: the files open to writing
  whose content the run has changed.
\<close>

theorem main_counts_fixed_files:
  "length files_to_fix = 12 \<and>
   map fst (calls EncodesMarks files_to_fix files) = files_to_fix \<and>
   fst (main EncodesMarks files) = Inr () \<and>
   snd (snd (main EncodesMarks files)) =
     Starting # printed_by (calls EncodesMarks files_to_fix files) @
       [Summary (fixed_calls (calls EncodesMarks files_to_fix files)), Reminder] \<and>
   fixed_calls (calls EncodesMarks files_to_fix files) =
     length (filter (rewritten files (fst (snd (main EncodesMarks files)))) files_to_fix)"
proof -
  from main_loop_calls [of files_to_fix files 0 "[Starting]"]
  obtain final where m: "main_loop EncodesMarks files_to_fix (files, 0, [Starting]) =
     (Inr (), final, fixed_calls (calls EncodesMarks files_to_fix files),
      [Starting] @ printed_by (calls EncodesMarks files_to_fix files))"
    by auto
  from main_loop_rewritten [OF files_to_fix_distinct, of files 0 "[Starting]"] m
  have r: "fixed_calls (calls EncodesMarks files_to_fix files) =
      length (filter (rewritten files final) files_to_fix)"
    by simp
  have "length files_to_fix = 12"
    by (simp add: files_to_fix_def)
  moreover have "map fst (calls EncodesMarks files_to_fix files) = files_to_fix"
    by (rule calls_paths)
  moreover from m have "fst (main EncodesMarks files) = Inr ()"
    by (simp add: main_def)
  moreover from m have "snd (snd (main EncodesMarks files)) =
     Starting # printed_by (calls EncodesMarks files_to_fix files) @
       [Summary (fixed_calls (calls EncodesMarks files_to_fix files)), Reminder]"
    by (simp add: main_def)
  moreover from m r have "fixed_calls (calls EncodesMarks files_to_fix files) =
     length (filter (rewritten files (fst (snd (main EncodesMarks files)))) files_to_fix)"
    by (simp add: main_def)
  ultimately show ?thesis by blast
qed

text \<open>
  The theorem of C8 where no file of the list exists: every path is visited and the
  count is 0.
\<close>

theorem main_counts_fixed_files_witness:
  "map fst (calls EncodesMarks files_to_fix empty_fs) = files_to_fix \<and>
   fst (main EncodesMarks empty_fs) = Inr () \<and>
   fixed_calls (calls EncodesMarks files_to_fix empty_fs) = 0"
proof -
  have "length (filter (rewritten empty_fs (fst (snd (main EncodesMarks empty_fs))))
      files_to_fix) = 0"
    by (simp add: rewritten_def empty_fs_def)
  with main_counts_fixed_files [of empty_fs] show ?thesis
    by simp
qed

text \<open>
  C8 as stated fails. When standard output cannot encode the marks, the first file is
  rewritten, the print of its result raises, and \<open>main\<close> ends without a summary line,
  after one call. And when the write of a file raises after the file was opened, the
  call returns \<open>False\<close> and the summary counts 0 files, while the run has changed the
  file: it is empty.
\<close>

theorem summary_count_not_changed_files:
  "main NoMarks
     (empty_fs(''src/app/api/calendar/events/route.ts'' \<mapsto>
        Regular ([10] @ str '' schoolId, // CRITICAL: Filter by school'' @ [10]) Writable)) =
     (Inl UnicodeEncodeError,
      empty_fs(''src/app/api/calendar/events/route.ts'' \<mapsto> Regular [] Writable),
      [Starting, Fixing ''src/app/api/calendar/events/route.ts'']) \<and>
   calls NoMarks files_to_fix
     (empty_fs(''src/app/api/calendar/events/route.ts'' \<mapsto>
        Regular ([10] @ str '' schoolId, // CRITICAL: Filter by school'' @ [10]) Writable)) =
     [(''src/app/api/calendar/events/route.ts'', Inl UnicodeEncodeError,
       [Fixing ''src/app/api/calendar/events/route.ts''])] \<and>
   [10] @ str '' schoolId, // CRITICAL: Filter by school'' @ [10] \<noteq> [] \<and>
   Summary 0 \<in> set (snd (snd (main EncodesMarks
     (empty_fs(''src/app/api/calendar/events/route.ts'' \<mapsto>
        Regular ([10] @ str '' schoolId, // CRITICAL: Filter by school'' @ [10])
          (WriteRaises ''File too large'' 0)))))) \<and>
   fst (snd (main EncodesMarks
     (empty_fs(''src/app/api/calendar/events/route.ts'' \<mapsto>
        Regular ([10] @ str '' schoolId, // CRITICAL: Filter by school'' @ [10])
          (WriteRaises ''File too large'' 0)))))
     ''src/app/api/calendar/events/route.ts'' =
     Some (Regular [] (WriteRaises ''File too large'' 0))"
proof -
  let ?t = "[10] @ str '' schoolId, // CRITICAL: Filter by school'' @ [10]"
  have t: "fst (fix_content ?t) = []"
    by (simp add: fix_content_fst eval_fix)
  have w: "snd (fix_content ?t) = []"
    by (simp add: fix_content_def fix_teacher_references_def
        fix_user_schools_references_def eval_fix)
  from t w have c: "fix_content ?t = ([], [])"
    by (simp add: prod_eq_iff)
  have ne: "[] \<noteq> ?t"
    by (simp add: str_def)
  from c ne show ?thesis
    by (simp add: main_def files_to_fix_def fix_file_def fix_file_try_def can_print_def
        empty_fs_def)
qed

text \<open>
  C9: for every input the content after the three passes in order is the content after
  \<open>fix_user_where_clause\<close> alone.
\<close>

theorem three_passes_content:
  "fst (fix_user_schools_references (fst (fix_teacher_references (fix_user_where_clause content)))) =
     fix_user_where_clause content \<and>
   fst (fix_content content) = fix_user_where_clause content"
  by (simp add: fix_content_def fix_teacher_references_def fix_user_schools_references_def Let_def)

text \<open>
  C10: for every input, the output of \<open>fix_user_where_clause\<close> is a subsequence of the
  input (it is obtained by deleting characters only), and so it is never longer than the
  input.
\<close>

theorem fix_user_where_clause_subseq:
  "subseq (fix_user_where_clause content) content \<and>
   length (fix_user_where_clause content) \<le> length content"
proof -
  have "subseq (re_sub pattern2 (re_sub pattern1 content)) (re_sub pattern1 content)"
    by (rule re_sub_subseq)
  moreover have "subseq (re_sub pattern1 content) content"
    by (rule re_sub_subseq)
  ultimately have s: "subseq (fix_user_where_clause content) content"
    unfolding fix_user_where_clause_def by (rule subseq_order.trans)
  from s have "length (fix_user_where_clause content) \<le> length content"
    by (rule list_emb_length)
  with s show ?thesis by simp
qed


end
